theory Spec2Isabelle
  imports Complex_Main
begin

section \<open>RFM customer segmentation (online\_retail.py)\<close>

text \<open>
  The script is a linear pandas pipeline over one table. A table is modelled as the list
  of its rows in index order, a row as a record of the columns the script names.
  Numbers are exact real numbers standing for float64 values; the null of a numeric or
  object column is \<open>NaN\<close>, the null of the date column is \<open>NaT\<close>. Rounding and the
  infinities of float64 are outside the model.
\<close>

subsection \<open>Cells and rows\<close>

datatype cell = NaN | Num real | Str string

datatype datecell = NaT | DStr string | DTime int

text \<open>
  \<open>DTime t\<close> is a parsed Timestamp, \<open>t\<close> in nanoseconds. \<open>Other\<close> holds the remaining
  columns of the file (stock code, description, country), which only
  \<open>drop_duplicates\<close> looks at. \<open>TotalPrice\<close> is \<open>NaN\<close> in every row until line 26 fills
  the column.
\<close>

record txn =
  InvoiceNo :: "string option"
  Quantity :: cell
  InvoiceDate :: datecell
  UnitPrice :: cell
  CustomerID :: cell
  TotalPrice :: cell
  Other :: "string list"

subsection \<open>Step 1: data cleaning (lines 12 to 26)\<close>

text \<open>\<open>df.drop_duplicates()\<close>: the first occurrence of every row is kept.\<close>

fun drop_dups :: "'a list \<Rightarrow> 'a list \<Rightarrow> 'a list" where
  "drop_dups seen [] = []"
| "drop_dups seen (x # xs) =
     (if x \<in> set seen then drop_dups seen xs else x # drop_dups (x # seen) xs)"

definition drop_duplicates :: "'a list \<Rightarrow> 'a list" where
  "drop_duplicates df = drop_dups [] df"

text \<open>
  \<open>pd.to_numeric(..., errors='coerce')\<close> and \<open>pd.to_datetime(..., errors='coerce')\<close>, cell
  by cell. How a string is read as a number or as a date is the library's business: the
  two readers are parameters, \<open>None\<close> meaning that the string does not parse.
\<close>

fun to_numeric :: "(string \<Rightarrow> real option) \<Rightarrow> cell \<Rightarrow> cell" where
  "to_numeric num NaN = NaN"
| "to_numeric num (Num x) = Num x"
| "to_numeric num (Str s) = (case num s of None \<Rightarrow> NaN | Some x \<Rightarrow> Num x)"

fun to_datetime :: "(string \<Rightarrow> int option) \<Rightarrow> datecell \<Rightarrow> datecell" where
  "to_datetime dt NaT = NaT"
| "to_datetime dt (DTime t) = DTime t"
| "to_datetime dt (DStr s) = (case dt s of None \<Rightarrow> NaT | Some t \<Rightarrow> DTime t)"

text \<open>\<open>df.dropna(subset=['CustomerID', 'Quantity', 'UnitPrice', 'InvoiceDate'])\<close>.\<close>

definition isna :: "txn \<Rightarrow> bool" where
  "isna r \<longleftrightarrow>
     CustomerID r = NaN \<or> Quantity r = NaN \<or> UnitPrice r = NaN \<or> InvoiceDate r = NaT"

definition dropna :: "txn list \<Rightarrow> txn list" where
  "dropna df = filter (\<lambda>r. \<not> isna r) df"

text \<open>
  \<open>astype(int)\<close> on a float column truncates towards zero. It raises on a null; line 18
  has removed them, and line 16 has left no string, so only the first equation is ever
  used (lemma \<open>astype_int_reached\<close> below).
\<close>

definition trunc :: "real \<Rightarrow> int" where
  "trunc x = (if 0 \<le> x then \<lfloor>x\<rfloor> else \<lceil>x\<rceil>)"

fun astype_int :: "cell \<Rightarrow> cell" where
  "astype_int (Num x) = Num (of_int (trunc x))"
| "astype_int c = c"

text \<open>\<open>astype(str)\<close> on the invoice column: a null prints as \<open>nan\<close>.\<close>

fun astype_str :: "string option \<Rightarrow> string" where
  "astype_str None = ''nan''"
| "astype_str (Some s) = s"

definition startswith :: "string \<Rightarrow> string \<Rightarrow> bool" where
  "startswith s p \<longleftrightarrow> take (length p) s = p"

text \<open>\<open>column > 0\<close>: a comparison with a null is false.\<close>

fun gt0 :: "cell \<Rightarrow> bool" where
  "gt0 (Num x) = (0 < x)"
| "gt0 c = False"

fun mul :: "cell \<Rightarrow> cell \<Rightarrow> cell" where
  "mul (Num a) (Num b) = Num (a * b)"
| "mul a b = NaN"

definition Cleaner :: "(string \<Rightarrow> real option) \<Rightarrow> (string \<Rightarrow> int option) \<Rightarrow> txn list \<Rightarrow> txn list" where
  "Cleaner num dt df0 =
    (let df = drop_duplicates df0;
         df = map (\<lambda>r. r\<lparr>Quantity := to_numeric num (Quantity r)\<rparr>) df;
         df = map (\<lambda>r. r\<lparr>UnitPrice := to_numeric num (UnitPrice r)\<rparr>) df;
         df = map (\<lambda>r. r\<lparr>CustomerID := to_numeric num (CustomerID r)\<rparr>) df;
         df = dropna df;
         df = map (\<lambda>r. r\<lparr>CustomerID := astype_int (CustomerID r)\<rparr>) df;
         df = map (\<lambda>r. r\<lparr>InvoiceDate := to_datetime dt (InvoiceDate r)\<rparr>) df;
         df = filter (\<lambda>r. \<not> startswith (astype_str (InvoiceNo r)) ''C'') df;
         df = filter (\<lambda>r. gt0 (Quantity r) \<and> gt0 (UnitPrice r)) df;
         df = map (\<lambda>r. r\<lparr>TotalPrice := mul (Quantity r) (UnitPrice r)\<rparr>) df
     in df)"

subsection \<open>Step 2: reference date (line 31)\<close>

text \<open>
  \<open>Series.max()\<close> skips nulls and is \<open>NaT\<close> on a series without a valid value; \<open>NaT\<close> plus
  a Timedelta is \<open>NaT\<close>. Nothing raises here. After line 21 the column holds no string any
  more, so \<open>timestamps\<close> never meets a \<open>DStr\<close>.
\<close>

definition day :: int where
  "day = 86400000000000"

fun timestamps :: "datecell list \<Rightarrow> int list" where
  "timestamps [] = []"
| "timestamps (DTime t # ds) = t # timestamps ds"
| "timestamps (d # ds) = timestamps ds"

definition series_max :: "datecell list \<Rightarrow> int option" where
  "series_max ds = (case timestamps ds of [] \<Rightarrow> None | t # ts \<Rightarrow> Some (fold max ts t))"

definition reference_date :: "txn list \<Rightarrow> int option" where
  "reference_date df =
     (case series_max (map InvoiceDate df) of None \<Rightarrow> None | Some m \<Rightarrow> Some (m + day))"

subsection \<open>Step 3: RFM metrics (lines 36 to 46)\<close>

text \<open>
  \<open>groupby('CustomerID')\<close> makes one group per non-null key, the groups in ascending key
  order. Recency is \<open>(reference_date - x.max()).days\<close>, null when either date is null;
  Frequency is \<open>nunique\<close>, which does not count nulls; Monetary is \<open>sum\<close>, which skips them.
\<close>

fun nums :: "cell list \<Rightarrow> real list" where
  "nums [] = []"
| "nums (Num x # cs) = x # nums cs"
| "nums (c # cs) = nums cs"

fun notna :: "'a option list \<Rightarrow> 'a list" where
  "notna [] = []"
| "notna (Some x # xs) = x # notna xs"
| "notna (None # xs) = notna xs"

definition group_keys :: "txn list \<Rightarrow> real list" where
  "group_keys df = sort (remdups (nums (map CustomerID df)))"

fun days :: "int option \<Rightarrow> int option \<Rightarrow> int option" where
  "days (Some r) (Some m) = Some ((r - m) div day)"
| "days r m = None"

definition nunique :: "'a option list \<Rightarrow> nat" where
  "nunique xs = length (remdups (notna xs))"

record rfm_row =
  CustomerID :: real
  Recency :: "int option"
  Frequency :: nat
  Monetary :: real

definition Aggregator :: "txn list \<Rightarrow> rfm_row list" where
  "Aggregator df =
    (let ref = reference_date df in
     map (\<lambda>k. let x = filter (\<lambda>r. txn.CustomerID r = Num k) df in
            \<lparr>CustomerID = k,
             Recency = days ref (series_max (map InvoiceDate x)),
             Frequency = nunique (map InvoiceNo x),
             Monetary = sum_list (nums (map TotalPrice x))\<rparr>)
         (group_keys df))"

subsection \<open>Step 4: RFM scores (lines 51 to 56)\<close>

text \<open>
  \<open>rank(method="first")\<close>: the rank of a value is the number of values below it plus the
  number of its equals up to and including itself, in row order; a null has no rank.
\<close>

definition rank_first :: "'a::linorder option list \<Rightarrow> nat option list" where
  "rank_first xs =
     map (\<lambda>i. case xs ! i of
            None \<Rightarrow> None
          | Some v \<Rightarrow> Some (length (filter
              (\<lambda>j. case xs ! j of None \<Rightarrow> False | Some w \<Rightarrow> w < v \<or> (w = v \<and> j \<le> i))
              [0..<length xs])))
       [0..<length xs]"

text \<open>
  \<open>pd.qcut(x, 5, labels)\<close>. The bin edges are the quantiles 0, 0.2, ..., 1 of the non-null
  values, by linear interpolation between the two nearest order statistics. Edges that are
  not all different raise a ValueError (on no value at all the six edges are all null).
  A value falls in the bin whose right edge is the first edge not below it
  (\<open>searchsorted\<close>, side left), the lowest value in the first bin.
\<close>

datatype error = BinEdgesNotUnique | CannotConvertNaN

definition quantile :: "real list \<Rightarrow> real \<Rightarrow> real" where
  "quantile s p =
    (let h = p * of_nat (length s - 1); lo = nat \<lfloor>h\<rfloor>; hi = nat \<lceil>h\<rceil>
     in s ! lo + (s ! hi - s ! lo) * (h - of_nat lo))"

definition searchsorted :: "real list \<Rightarrow> real \<Rightarrow> nat" where
  "searchsorted bins v = length (takeWhile (\<lambda>b. b < v) bins)"

definition cut :: "real list \<Rightarrow> int list \<Rightarrow> nat option \<Rightarrow> int option" where
  "cut bins labels x =
    (case x of
       None \<Rightarrow> None
     | Some r \<Rightarrow>
        (let ids = (if of_nat r = hd bins then 1 else searchsorted bins (of_nat r))
         in if ids = 0 \<or> ids = length bins then None else Some (labels ! (ids - 1))))"

definition qcut :: "nat option list \<Rightarrow> int list \<Rightarrow> error + int option list" where
  "qcut x labels =
    (let s = sort (map of_nat (notna x)) in
     if s = [] then Inl BinEdgesNotUnique
     else
       (let bins = map (quantile s) [0, 1/5, 2/5, 3/5, 4/5, 1] in
        if \<not> distinct bins then Inl BinEdgesNotUnique
        else Inr (map (cut bins labels) x)))"

record scored_row = rfm_row +
  R_score :: int
  F_score :: int
  M_score :: int
  RFM_Score :: int

text \<open>
  A failure is the source line that raises and the exception. Line 56 converts the three
  score columns to int, which raises when a score is null.
\<close>

type_synonym failure = "nat \<times> error"

definition Scorer :: "rfm_row list \<Rightarrow> failure + scored_row list" where
  "Scorer rfm =
    (case qcut (rank_first (map Recency rfm)) [5, 4, 3, 2, 1] of
       Inl e \<Rightarrow> Inl (51, e)
     | Inr R \<Rightarrow>
    (case qcut (rank_first (map (\<lambda>c. Some (Frequency c)) rfm)) [1, 2, 3, 4, 5] of
       Inl e \<Rightarrow> Inl (52, e)
     | Inr F \<Rightarrow>
    (case qcut (rank_first (map (\<lambda>c. Some (Monetary c)) rfm)) [1, 2, 3, 4, 5] of
       Inl e \<Rightarrow> Inl (53, e)
     | Inr M \<Rightarrow>
    (case (those R, those F, those M) of
       (Some Rs, Some Fs, Some Ms) \<Rightarrow>
         Inr (map (\<lambda>i. rfm_row.extend (rfm ! i)
                    (scored_row.fields (Rs ! i) (Fs ! i) (Ms ! i) (Rs ! i + Fs ! i + Ms ! i)))
                [0..<length rfm])
     | _ \<Rightarrow> Inl (56, CannotConvertNaN)))))"

subsection \<open>Step 5: customer segmentation (lines 61 to 74)\<close>

definition segment_customer :: "'a scored_row_scheme \<Rightarrow> string" where
  "segment_customer row =
    (let r = R_score row; f = F_score row; m = M_score row in
     if r \<ge> 4 \<and> f \<ge> 4 then ''Champions''
     else if r \<ge> 3 \<and> f \<ge> 3 then ''Loyal Customers''
     else if r \<ge> 3 \<and> f \<le> 2 then ''Potential Loyalist''
     else if r \<le> 2 \<and> f \<ge> 3 then ''At Risk''
     else ''Others'')"

record segmented_row = scored_row +
  Segment :: string

definition Classifier :: "scored_row list \<Rightarrow> segmented_row list" where
  "Classifier rfm =
     map (\<lambda>row. scored_row.extend row (segmented_row.fields (segment_customer row))) rfm"

subsection \<open>The whole run\<close>

definition run :: "(string \<Rightarrow> real option) \<Rightarrow> (string \<Rightarrow> int option) \<Rightarrow> txn list
    \<Rightarrow> failure + segmented_row list" where
  "run num dt df0 =
    (let df = Cleaner num dt df0;
         rfm = Aggregator df
     in case Scorer rfm of Inl e \<Rightarrow> Inl e | Inr scored \<Rightarrow> Inr (Classifier scored))"

subsection \<open>Auxiliary notions for the proofs\<close>

text \<open>What every row that leaves the Cleaner satisfies (lemma \<open>Cleaner_cleaned\<close>).\<close>

definition cleaned :: "txn \<Rightarrow> bool" where
  "cleaned r \<longleftrightarrow>
     (\<exists>q p k. Quantity r = Num q \<and> 0 < q \<and> UnitPrice r = Num p \<and> 0 < p
        \<and> txn.CustomerID r = Num (of_int k) \<and> TotalPrice r = Num (q * p))
     \<and> (InvoiceDate r = NaT \<or> (\<exists>t. InvoiceDate r = DTime t))
     \<and> \<not> startswith (astype_str (InvoiceNo r)) ''C''"

text \<open>The invoice identifiers under which customer \<open>k\<close> appears.\<close>

definition invoices_of :: "txn list \<Rightarrow> real \<Rightarrow> string set" where
  "invoices_of df k = {n. \<exists>r\<in>set df. txn.CustomerID r = Num k \<and> InvoiceNo r = Some n}"

text \<open>
  The rank of row \<open>i\<close> in a series without nulls: the number of rows that come before it, or
  are it, in the order by value and then by position.
\<close>

definition below :: "'a::linorder list \<Rightarrow> nat \<Rightarrow> nat set" where
  "below vs i = {j. j < length vs \<and> (vs ! j < vs ! i \<or> (vs ! j = vs ! i \<and> j \<le> i))}"

definition ranks :: "'a::linorder list \<Rightarrow> nat list" where
  "ranks vs = map (\<lambda>i. card (below vs i)) [0..<length vs]"

text \<open>
  The bin (1 to 5) of rank \<open>r\<close> among \<open>n\<close> ranks 1..n: the first \<open>k\<close> whose edge
  \<open>1 + k (n - 1) / 5\<close> is not below \<open>r\<close>, written without fractions. That \<open>cut\<close> puts the
  rank there is lemma \<open>cut_bucket\<close>.
\<close>

definition bucket :: "nat \<Rightarrow> nat \<Rightarrow> nat" where
  "bucket n r =
    (if 5 * (r - 1) \<le> n - 1 then 1
     else if 5 * (r - 1) \<le> 2 * (n - 1) then 2
     else if 5 * (r - 1) \<le> 3 * (n - 1) then 3
     else if 5 * (r - 1) \<le> 4 * (n - 1) then 4
     else 5)"

text \<open>
  The score column \<open>qcut\<close> returns for a series without nulls (lemma
  \<open>qcut_rank_first\<close>), and the row the Scorer builds at position \<open>i\<close> of a table without
  null Recency (lemma \<open>Scorer_eq\<close>).
\<close>

definition score_col :: "int list \<Rightarrow> 'a::linorder list \<Rightarrow> int list" where
  "score_col labels vs = map (\<lambda>r. labels ! (bucket (length vs) r - 1)) (ranks vs)"

definition scored :: "rfm_row list \<Rightarrow> nat \<Rightarrow> scored_row" where
  "scored rfm i =
    (let R = score_col [5, 4, 3, 2, 1] (notna (map Recency rfm)) ! i;
         F = score_col [1, 2, 3, 4, 5] (map Frequency rfm) ! i;
         M = score_col [1, 2, 3, 4, 5] (map Monetary rfm) ! i
     in rfm_row.extend (rfm ! i) (scored_row.fields R F M (R + F + M)))"

text \<open>
  Two sample readers for the concrete tables below. They stand for \<open>pd.to_numeric\<close> and
  \<open>pd.to_datetime\<close> on the strings those tables hold and on no other: \<open>ex_num\<close> reads
  the string 6; \<open>ex_dt\<close> reads 2010-12-01 08:26:00 as that timestamp, in nanoseconds
  since 1970, and does not read the string "not a date", which the library does not parse
  either. No theorem applies them to another string.
\<close>

definition ex_num :: "string \<Rightarrow> real option" where
  "ex_num s = (if s = ''6'' then Some 6 else None)"

definition ex_dt :: "string \<Rightarrow> int option" where
  "ex_dt s = (if s = ''2010-12-01 08:26:00'' then Some 1291191960000000000 else None)"

section \<open>The Cleaner\<close>

lemma drop_dups_subset: "set (drop_dups seen xs) \<subseteq> set xs"
  by (induction xs arbitrary: seen) auto

lemma drop_dups_id: "distinct xs \<Longrightarrow> set xs \<inter> set seen = {} \<Longrightarrow> drop_dups seen xs = xs"
  by (induction xs arbitrary: seen) auto

lemma drop_duplicates_id: "distinct xs \<Longrightarrow> drop_duplicates xs = xs"
  by (simp add: drop_duplicates_def drop_dups_id)

lemma gt0_Num: "gt0 c \<Longrightarrow> \<exists>x. c = Num x \<and> 0 < x"
  by (cases c) auto

lemma to_datetime_cases: "to_datetime dt d = NaT \<or> (\<exists>t. to_datetime dt d = DTime t)"
  by (cases d) (auto split: option.splits)

text \<open>Line 20 only ever meets a number: the raising branch of \<open>astype(int)\<close> is dead.\<close>

lemma astype_int_reached:
  "to_numeric num c \<noteq> NaN \<Longrightarrow> \<exists>k. astype_int (to_numeric num c) = Num (of_int k)"
  by (cases c) (auto split: option.splits)

lemma Cleaner_cleaned: "r \<in> set (Cleaner num dt df) \<Longrightarrow> cleaned r"
  unfolding Cleaner_def Let_def dropna_def isna_def cleaned_def
  by (auto dest!: gt0_Num simp: astype_int_reached) (metis to_datetime_cases)

lemmas Cleaner_eval = Cleaner_def Let_def drop_duplicates_def dropna_def isna_def
  startswith_def trunc_def ex_dt_def ex_num_def

text \<open>
  Whatever the date reader, a record whose date is a string the reader does not parse
  passes line 18, the string not being null, and leaves line 21 with a null date.
\<close>

lemma Cleaner_keeps_date_any_reader:
  assumes "dt s = None"
  shows "Cleaner num dt
     [\<lparr>InvoiceNo = Some ''536365'', Quantity = Num 6, InvoiceDate = DStr s,
       UnitPrice = Num (255/100), txn.CustomerID = Num 17850, TotalPrice = NaN, Other = []\<rparr>]
   = [\<lparr>InvoiceNo = Some ''536365'', Quantity = Num 6, InvoiceDate = NaT,
       UnitPrice = Num (255/100), txn.CustomerID = Num 17850, TotalPrice = Num (153/10),
       Other = []\<rparr>]"
  using assms
  by (simp add: Cleaner_def Let_def drop_duplicates_def dropna_def isna_def startswith_def trunc_def)

text \<open>
  C1. Every record that survives the Cleaner has quantity > 0, unit price > 0, an integer
  customer identifier, an invoice identifier that does not start with C, and a valid
  date; a record whose date string does not parse is dropped. The last part fails: line
  18 drops null dates before line 21 parses them, so a record whose date is a string that
  does not parse passes line 18 and leaves line 21 with a null date. Here is such a
  record, its date the string "not a date", and what the Cleaner returns for it. (The
  other parts hold: lemma \<open>Cleaner_cleaned\<close>.)
\<close>

theorem Cleaner_keeps_unparsable_date:
  "Cleaner ex_num ex_dt
     [\<lparr>InvoiceNo = Some ''536365'', Quantity = Str ''6'', InvoiceDate = DStr ''not a date'',
       UnitPrice = Num (255/100), txn.CustomerID = Num 17850, TotalPrice = NaN, Other = []\<rparr>]
   = [\<lparr>InvoiceNo = Some ''536365'', Quantity = Num 6, InvoiceDate = NaT,
       UnitPrice = Num (255/100), txn.CustomerID = Num 17850, TotalPrice = Num (153/10),
       Other = []\<rparr>]"
  by (simp add: Cleaner_eval)

lemma cleaned_row_fix:
  assumes "cleaned r" "InvoiceDate r \<noteq> NaT"
  shows "r\<lparr>Quantity := to_numeric num (Quantity r)\<rparr> = r"
    "r\<lparr>UnitPrice := to_numeric num (UnitPrice r)\<rparr> = r"
    "r\<lparr>txn.CustomerID := to_numeric num (txn.CustomerID r)\<rparr> = r"
    "\<not> isna r"
    "r\<lparr>txn.CustomerID := astype_int (txn.CustomerID r)\<rparr> = r"
    "r\<lparr>InvoiceDate := to_datetime dt (InvoiceDate r)\<rparr> = r"
    "\<not> startswith (astype_str (InvoiceNo r)) ''C''"
    "gt0 (Quantity r)" "gt0 (UnitPrice r)"
    "r\<lparr>TotalPrice := mul (Quantity r) (UnitPrice r)\<rparr> = r"
  using assms by (cases r; auto simp: cleaned_def isna_def trunc_def)+

lemma Cleaner_fixpoint:
  assumes "distinct xs" "\<forall>r\<in>set xs. cleaned r \<and> InvoiceDate r \<noteq> NaT"
  shows "Cleaner num dt xs = xs"
proof -
  have rows: "\<forall>r\<in>set ys. cleaned r \<and> InvoiceDate r \<noteq> NaT \<Longrightarrow>
     map (\<lambda>r. r\<lparr>TotalPrice := mul (Quantity r) (UnitPrice r)\<rparr>)
      (filter (\<lambda>r. gt0 (Quantity r) \<and> gt0 (UnitPrice r))
       (filter (\<lambda>r. \<not> startswith (astype_str (InvoiceNo r)) ''C'')
        (map (\<lambda>r. r\<lparr>InvoiceDate := to_datetime dt (InvoiceDate r)\<rparr>)
         (map (\<lambda>r. r\<lparr>txn.CustomerID := astype_int (txn.CustomerID r)\<rparr>)
          (dropna
           (map (\<lambda>r. r\<lparr>txn.CustomerID := to_numeric num (txn.CustomerID r)\<rparr>)
            (map (\<lambda>r. r\<lparr>UnitPrice := to_numeric num (UnitPrice r)\<rparr>)
             (map (\<lambda>r. r\<lparr>Quantity := to_numeric num (Quantity r)\<rparr>) ys)))))))) = ys" for ys
    by (induction ys) (simp_all add: dropna_def cleaned_row_fix)
  show ?thesis
    unfolding Cleaner_def Let_def drop_duplicates_id[OF assms(1)] by (rule rows[OF assms(2)])
qed

text \<open>
  C8 (as amended). Cleaning a cleaned table again returns it unchanged, provided the
  cleaned table has no two equal rows and no null date.
\<close>

theorem Cleaner_idempotent_on_distinct_dated:
  assumes "distinct (Cleaner num dt df)"
    and "\<forall>r\<in>set (Cleaner num dt df). InvoiceDate r \<noteq> NaT"
  shows "Cleaner num dt (Cleaner num dt df) = Cleaner num dt df"
  using assms by (intro Cleaner_fixpoint) (auto simp: Cleaner_cleaned)

text \<open>The amended claim at a table of two different, well-formed rows.\<close>

theorem Cleaner_idempotent_witness:
  "(let df = [\<lparr>InvoiceNo = Some ''536365'', Quantity = Str ''6'',
                InvoiceDate = DStr ''2010-12-01 08:26:00'', UnitPrice = Num (255/100),
                txn.CustomerID = Num 17850, TotalPrice = NaN, Other = []\<rparr>,
              \<lparr>InvoiceNo = Some ''536366'', Quantity = Num 2,
                InvoiceDate = DStr ''2010-12-01 08:26:00'', UnitPrice = Num 3,
                txn.CustomerID = Num 13047, TotalPrice = NaN, Other = []\<rparr>]
    in length (Cleaner ex_num ex_dt df) = 2
       \<and> Cleaner ex_num ex_dt (Cleaner ex_num ex_dt df) = Cleaner ex_num ex_dt df)"
  unfolding Let_def
  by (intro conjI Cleaner_idempotent_on_distinct_dated) (simp_all add: Cleaner_eval)

text \<open>
  The claim as stated fails. Two rows that differ only in the fractional part of the
  customer identifier both survive cleaning, line 20 truncates both identifiers to 17, and
  a second cleaning drops the second row as a duplicate of the first.
\<close>

theorem Cleaner_not_idempotent:
  "Cleaner ex_num ex_dt (Cleaner ex_num ex_dt
     [\<lparr>InvoiceNo = Some ''536365'', Quantity = Num 6, InvoiceDate = DStr ''2010-12-01 08:26:00'',
       UnitPrice = Num (255/100), txn.CustomerID = Num (35/2), TotalPrice = NaN, Other = []\<rparr>,
      \<lparr>InvoiceNo = Some ''536365'', Quantity = Num 6, InvoiceDate = DStr ''2010-12-01 08:26:00'',
       UnitPrice = Num (255/100), txn.CustomerID = Num (69/4), TotalPrice = NaN, Other = []\<rparr>])
  \<noteq> Cleaner ex_num ex_dt
     [\<lparr>InvoiceNo = Some ''536365'', Quantity = Num 6, InvoiceDate = DStr ''2010-12-01 08:26:00'',
       UnitPrice = Num (255/100), txn.CustomerID = Num (35/2), TotalPrice = NaN, Other = []\<rparr>,
      \<lparr>InvoiceNo = Some ''536365'', Quantity = Num 6, InvoiceDate = DStr ''2010-12-01 08:26:00'',
       UnitPrice = Num (255/100), txn.CustomerID = Num (69/4), TotalPrice = NaN, Other = []\<rparr>]"
  by (simp add: Cleaner_eval)

section \<open>The Aggregator\<close>

lemma set_notna: "set (notna xs) = {x. Some x \<in> set xs}"
  by (induction xs rule: notna.induct) auto

lemma set_nums: "set (nums cs) = {x. Num x \<in> set cs}"
  by (induction cs rule: nums.induct) auto

lemma set_timestamps: "set (timestamps ds) = {t. DTime t \<in> set ds}"
  by (induction ds rule: timestamps.induct) auto

lemma nunique_card: "nunique xs = card {x. Some x \<in> set xs}"
  by (simp add: nunique_def length_remdups_card_conv set_notna)

lemma set_group_keys: "set (group_keys df) = {k. \<exists>r\<in>set df. txn.CustomerID r = Num k}"
  by (force simp: group_keys_def set_nums image_iff)

lemma distinct_group_keys: "distinct (group_keys df)"
  by (simp add: group_keys_def)

lemma series_max_eq:
  "series_max ds = (if timestamps ds = [] then None else Some (Max (set (timestamps ds))))"
proof (cases "timestamps ds")
  case Nil
  then show ?thesis by (simp add: series_max_def)
next
  case (Cons t ts)
  have "fold max ts t = Max (set (t # ts))" by (simp only: Max.set_eq_fold)
  with Cons show ?thesis by (simp add: series_max_def)
qed

lemma Scorer_Nil: "Scorer [] = Inl (51, BinEdgesNotUnique)"
  by (simp add: Scorer_def rank_first_def qcut_def)

lemma Aggregator_Nil: "Aggregator [] = []" "reference_date [] = None"
  by (simp_all add: reference_date_def series_max_def Aggregator_def group_keys_def)

text \<open>
  C3 (as amended). When cleaning leaves no record, nothing aborts at or before the
  reference date: line 31 computes a null reference date, the Aggregator returns an empty
  customer table, and the run aborts only at line 51, where \<open>qcut\<close> finds no distinct bin
  edges.
\<close>

theorem run_empty:
  assumes "Cleaner num dt df0 = []"
  shows "reference_date (Cleaner num dt df0) = None \<and> Aggregator (Cleaner num dt df0) = []
     \<and> run num dt df0 = Inl (51, BinEdgesNotUnique)"
  using assms by (simp add: run_def Aggregator_Nil Scorer_Nil)

text \<open>The amended claim at a table whose only record is a cancellation.\<close>

theorem run_empty_witness:
  "(let df0 = [\<lparr>InvoiceNo = Some ''C536379'', Quantity = Num (- 1),
                 InvoiceDate = DStr ''2010-12-01 08:26:00'', UnitPrice = Num (55/2),
                 txn.CustomerID = Num 14527, TotalPrice = NaN, Other = []\<rparr>]
    in Cleaner ex_num ex_dt df0 = []
       \<and> reference_date (Cleaner ex_num ex_dt df0) = None
       \<and> Aggregator (Cleaner ex_num ex_dt df0) = []
       \<and> run ex_num ex_dt df0 = Inl (51, BinEdgesNotUnique))"
proof -
  have e: "Cleaner ex_num ex_dt
      [\<lparr>InvoiceNo = Some ''C536379'', Quantity = Num (- 1),
        InvoiceDate = DStr ''2010-12-01 08:26:00'', UnitPrice = Num (55/2),
        txn.CustomerID = Num 14527, TotalPrice = NaN, Other = []\<rparr>] = []"
    by (simp add: Cleaner_eval)
  show ?thesis
    unfolding Let_def using e run_empty[OF e] by simp
qed

text \<open>
  The claim as stated fails: on the table whose only record is a cancellation, cleaning
  yields zero records, the reference date is computed (as null) without any error, and
  the failure of the run is the one raised at line 51, after line 31.
\<close>

theorem no_abort_before_reference_date:
  "Cleaner ex_num ex_dt
      [\<lparr>InvoiceNo = Some ''C536379'', Quantity = Num (- 1),
        InvoiceDate = DStr ''2010-12-01 08:26:00'', UnitPrice = Num (55/2),
        txn.CustomerID = Num 14527, TotalPrice = NaN, Other = []\<rparr>] = []
   \<and> reference_date (Cleaner ex_num ex_dt
      [\<lparr>InvoiceNo = Some ''C536379'', Quantity = Num (- 1),
        InvoiceDate = DStr ''2010-12-01 08:26:00'', UnitPrice = Num (55/2),
        txn.CustomerID = Num 14527, TotalPrice = NaN, Other = []\<rparr>]) = None
   \<and> run ex_num ex_dt
      [\<lparr>InvoiceNo = Some ''C536379'', Quantity = Num (- 1),
        InvoiceDate = DStr ''2010-12-01 08:26:00'', UnitPrice = Num (55/2),
        txn.CustomerID = Num 14527, TotalPrice = NaN, Other = []\<rparr>]
     = Inl (51, BinEdgesNotUnique)"
  by (simp add: Cleaner_eval run_def Aggregator_Nil Scorer_Nil)

text \<open>
  On a table all of whose invoice timestamps are valid dates, every customer record the
  Aggregator produces has Recency \<ge> 1: the reference date is the greatest timestamp plus
  one day, and a customer's latest timestamp is at most the greatest.
\<close>

lemma Recency_ge_1:
  assumes dated: "\<forall>r\<in>set df. \<exists>t. InvoiceDate r = DTime t"
    and c: "c \<in> set (Aggregator df)"
  shows "\<exists>d. Recency c = Some d \<and> 1 \<le> d"
proof -
  from c obtain k where k: "k \<in> set (group_keys df)"
    and R: "Recency c = days (reference_date df)
              (series_max (map InvoiceDate (filter (\<lambda>r. txn.CustomerID r = Num k) df)))"
    by (auto simp: Aggregator_def Let_def)
  define x where "x = filter (\<lambda>r. txn.CustomerID r = Num k) df"
  from k obtain r where r: "r \<in> set df" "txn.CustomerID r = Num k"
    by (auto simp: set_group_keys)
  then have "r \<in> set x" by (simp add: x_def)
  moreover from r dated obtain t where "InvoiceDate r = DTime t" by auto
  ultimately have tx: "t \<in> set (timestamps (map InvoiceDate x))"
    by (force simp: set_timestamps)
  have sub: "set (timestamps (map InvoiceDate x)) \<subseteq> set (timestamps (map InvoiceDate df))"
    by (auto simp: set_timestamps x_def)
  define m where "m = Max (set (timestamps (map InvoiceDate x)))"
  define M where "M = Max (set (timestamps (map InvoiceDate df)))"
  have "m \<in> set (timestamps (map InvoiceDate x))"
    unfolding m_def using tx by (intro Max_in) auto
  with sub have "m \<le> M" unfolding M_def by (intro Max_ge) auto
  have mx: "series_max (map InvoiceDate x) = Some m"
    using tx by (auto simp: series_max_eq m_def)
  have "timestamps (map InvoiceDate df) \<noteq> []" using tx sub by auto
  then have ref: "reference_date df = Some (M + day)"
    by (simp add: reference_date_def series_max_eq M_def)
  have "Recency c = Some ((M + day - m) div day)"
    using R mx ref by (simp add: x_def)
  moreover have "1 \<le> (M + day - m) div day"
  proof -
    have "0 < day" by (simp add: day_def)
    moreover have "day \<le> M + day - m" using \<open>m \<le> M\<close> by simp
    ultimately have "0 < (M + day - m) div day"
      by (simp only: pos_imp_zdiv_pos_iff)
    then show ?thesis by simp
  qed
  ultimately show ?thesis by simp
qed

text \<open>
  C5. For every non-empty cleaned transaction set, every customer record the Aggregator
  produces has Recency \<ge> 1. This fails on the code. The Cleaner lets a record whose date
  does not parse through with a null date (lines 18 and 21, see C1); a customer all of
  whose dates are null has no latest timestamp, and line 37 gives him a null Recency.
  Here are two records of two customers, the second with the date "not a date", and the
  customer table the Aggregator returns for the cleaned set.
\<close>

theorem Recency_null_after_unparsable_date:
  "Aggregator (Cleaner ex_num ex_dt
     [\<lparr>InvoiceNo = Some ''536365'', Quantity = Num 6, InvoiceDate = DStr ''2010-12-01 08:26:00'',
       UnitPrice = Num 3, txn.CustomerID = Num 17850, TotalPrice = NaN, Other = []\<rparr>,
      \<lparr>InvoiceNo = Some ''536366'', Quantity = Num 2, InvoiceDate = DStr ''not a date'',
       UnitPrice = Num 3, txn.CustomerID = Num 13047, TotalPrice = NaN, Other = []\<rparr>])
   = [\<lparr>CustomerID = 13047, Recency = None, Frequency = 1, Monetary = 6\<rparr>,
      \<lparr>CustomerID = 17850, Recency = Some 1, Frequency = 1, Monetary = 18\<rparr>]"
proof -
  have e: "Cleaner ex_num ex_dt
     [\<lparr>InvoiceNo = Some ''536365'', Quantity = Num 6, InvoiceDate = DStr ''2010-12-01 08:26:00'',
       UnitPrice = Num 3, txn.CustomerID = Num 17850, TotalPrice = NaN, Other = []\<rparr>,
      \<lparr>InvoiceNo = Some ''536366'', Quantity = Num 2, InvoiceDate = DStr ''not a date'',
       UnitPrice = Num 3, txn.CustomerID = Num 13047, TotalPrice = NaN, Other = []\<rparr>]
    = [\<lparr>InvoiceNo = Some ''536365'', Quantity = Num 6, InvoiceDate = DTime 1291191960000000000,
       UnitPrice = Num 3, txn.CustomerID = Num 17850, TotalPrice = Num 18, Other = []\<rparr>,
      \<lparr>InvoiceNo = Some ''536366'', Quantity = Num 2, InvoiceDate = NaT,
       UnitPrice = Num 3, txn.CustomerID = Num 13047, TotalPrice = Num 6, Other = []\<rparr>]"
    by (simp add: Cleaner_eval)
  show ?thesis
    unfolding e
    by (simp add: Aggregator_def Let_def group_keys_def reference_date_def series_max_def
        nunique_def day_def)
qed

lemma sum_list_group_keys: "sum_list (map f (group_keys df)) = sum f (set (group_keys df))"
  by (simp add: sum_list_distinct_conv_sum_set distinct_group_keys)

lemma sum_nums_Cons:
  "sum_list (nums (c # cs)) = (case c of Num x \<Rightarrow> x | _ \<Rightarrow> 0) + sum_list (nums cs)"
  by (cases c) auto

lemma Monetary_partition:
  assumes "finite K" "\<forall>r\<in>set df. \<exists>k\<in>K. txn.CustomerID r = Num k"
  shows "(\<Sum>k\<in>K. sum_list (nums (map TotalPrice (filter (\<lambda>r. txn.CustomerID r = Num k) df))))
       = sum_list (nums (map TotalPrice df))"
  using assms(2)
proof (induction df)
  case Nil
  then show ?case by simp
next
  case (Cons r rs)
  then obtain k0 where k0: "k0 \<in> K" "txn.CustomerID r = Num k0" by auto
  let ?g = "case TotalPrice r of Num x \<Rightarrow> x | _ \<Rightarrow> 0"
  have "(\<Sum>k\<in>K. sum_list (nums (map TotalPrice (filter (\<lambda>r. txn.CustomerID r = Num k) (r # rs)))))
      = (\<Sum>k\<in>K. (if k = k0 then ?g else 0)
           + sum_list (nums (map TotalPrice (filter (\<lambda>r. txn.CustomerID r = Num k) rs))))"
    by (intro sum.cong refl) (simp add: k0 sum_nums_Cons)
  also have "\<dots> = ?g + sum_list (nums (map TotalPrice rs))"
    using Cons assms(1) k0 by (simp add: sum.distrib)
  finally show ?case by (simp add: sum_nums_Cons)
qed

lemma Monetary_total:
  assumes "\<forall>r\<in>set df. \<exists>k. txn.CustomerID r = Num k"
  shows "sum_list (map Monetary (Aggregator df)) = sum_list (nums (map TotalPrice df))"
proof -
  have "sum_list (map Monetary (Aggregator df))
      = (\<Sum>k\<in>set (group_keys df).
           sum_list (nums (map TotalPrice (filter (\<lambda>r. txn.CustomerID r = Num k) df))))"
    by (simp add: Aggregator_def Let_def comp_def sum_list_group_keys)
  also have "\<dots> = sum_list (nums (map TotalPrice df))"
  proof (rule Monetary_partition)
    show "finite (set (group_keys df))" by simp
    show "\<forall>r\<in>set df. \<exists>k\<in>set (group_keys df). txn.CustomerID r = Num k"
      using assms unfolding set_group_keys by blast
  qed
  finally show ?thesis .
qed

lemma pairs_set:
  "{x. Some x \<in> set (map (\<lambda>r. map_option (Pair (c r)) (InvoiceNo r)) df)}
     = {(c r, n) | r n. r \<in> set df \<and> InvoiceNo r = Some n}"
proof -
  have "Some x = map_option (Pair (c r)) (InvoiceNo r) \<longleftrightarrow> (\<exists>n. InvoiceNo r = Some n \<and> x = (c r, n))"
    for x r by (cases "InvoiceNo r") auto
  then show ?thesis by (auto simp: image_iff)
qed

lemma invoices_set:
  "{n. Some n \<in> set (map InvoiceNo df)} = {n. \<exists>r\<in>set df. InvoiceNo r = Some n}"
proof -
  have "Some n \<in> InvoiceNo ` set df \<longleftrightarrow> (\<exists>r\<in>set df. InvoiceNo r = Some n)" for n
    by (metis (no_types) image_iff)
  then show ?thesis by simp
qed

lemma Frequency_total:
  assumes "\<forall>r\<in>set df. \<exists>k. txn.CustomerID r = Num k"
  shows "sum_list (map Frequency (Aggregator df))
       = nunique (map (\<lambda>r. map_option (Pair (txn.CustomerID r)) (InvoiceNo r)) df)"
proof -
  let ?K = "set (group_keys df)"
  have fin: "finite (invoices_of df k)" for k
    by (rule finite_subset[of _ "(\<lambda>r. the (InvoiceNo r)) ` set df"])
       (force simp: invoices_of_def image_iff)+
  have "sum_list (map Frequency (Aggregator df)) = (\<Sum>k\<in>?K. card (invoices_of df k))"
    by (simp add: Aggregator_def Let_def comp_def sum_list_group_keys nunique_card
        invoices_of_def) (intro sum.cong refl arg_cong[where f=card], force simp: image_iff)
  also have "\<dots> = card (Sigma ?K (invoices_of df))"
    using fin by (simp add: card_SigmaI)
  also have "\<dots> = card ((\<lambda>(k, n). (Num k, n)) ` Sigma ?K (invoices_of df))"
    by (intro card_image[symmetric]) (auto simp: inj_on_def)
  also have "(\<lambda>(k, n). (Num k, n)) ` Sigma ?K (invoices_of df)
      = {x. Some x \<in> set (map (\<lambda>r. map_option (Pair (txn.CustomerID r)) (InvoiceNo r)) df)}"
    unfolding pairs_set using assms
    by (auto simp: invoices_of_def set_group_keys image_iff) (metis, blast)
  finally show ?thesis by (simp add: nunique_card)
qed

lemma Frequency_total_unshared:
  assumes "\<forall>r\<in>set df. \<exists>k. txn.CustomerID r = Num k"
    and "\<forall>r\<in>set df. \<forall>r'\<in>set df.
           InvoiceNo r = InvoiceNo r' \<longrightarrow> InvoiceNo r = None \<or> txn.CustomerID r = txn.CustomerID r'"
  shows "sum_list (map Frequency (Aggregator df)) = nunique (map InvoiceNo df)"
proof -
  define P where "P = {(txn.CustomerID r, n) |r n. r \<in> set df \<and> InvoiceNo r = Some n}"
  define I where "I = {n. \<exists>r\<in>set df. InvoiceNo r = Some n}"
  have img: "snd ` P = I"
  proof
    show "snd ` P \<subseteq> I" unfolding P_def I_def by auto
    show "I \<subseteq> snd ` P"
    proof
      fix n assume "n \<in> I"
      then obtain r where r: "r \<in> set df" "InvoiceNo r = Some n" unfolding I_def by blast
      then have "(txn.CustomerID r, n) \<in> P" unfolding P_def by blast
      then show "n \<in> snd ` P" by (rule image_eqI[rotated]) simp
    qed
  qed
  have inj: "inj_on snd P"
  proof (rule inj_onI)
    fix x y
    assume x: "x \<in> P" and y: "y \<in> P" and eq: "snd x = snd y"
    from x obtain r n where r: "r \<in> set df" "InvoiceNo r = Some n" "x = (txn.CustomerID r, n)"
      unfolding P_def by blast
    from y obtain r' n' where r': "r' \<in> set df" "InvoiceNo r' = Some n'" "y = (txn.CustomerID r', n')"
      unfolding P_def by blast
    from eq r r' have n: "n = n'" by simp
    with r r' have "InvoiceNo r = InvoiceNo r'" by simp
    with assms(2) r(1) r'(1) have "InvoiceNo r = None \<or> txn.CustomerID r = txn.CustomerID r'"
      by blast
    with r have "txn.CustomerID r = txn.CustomerID r'" by simp
    with r r' n show "x = y" by simp
  qed
  have "card I = card P"
    unfolding img[symmetric] by (rule card_image[OF inj])
  moreover have "sum_list (map Frequency (Aggregator df)) = card P"
    unfolding P_def Frequency_total[OF assms(1)] nunique_card pairs_set ..
  moreover have "nunique (map InvoiceNo df) = card I"
    unfolding I_def nunique_card invoices_set ..
  ultimately show ?thesis by simp
qed

text \<open>
  C7 (as amended). For every cleaned transaction set, the sum of Frequency over the
  customer records equals the number of distinct (customer, invoice) pairs of the set; it
  equals the number of distinct invoice identifiers when no invoice identifier occurs
  under two customer identifiers. The sum of Monetary equals the sum of total price over
  all cleaned records (exactly, numbers being exact here).
\<close>

theorem Aggregator_totals:
  fixes num dt df0
  defines "df \<equiv> Cleaner num dt df0"
  shows "sum_list (map Frequency (Aggregator df))
           = nunique (map (\<lambda>r. map_option (Pair (txn.CustomerID r)) (InvoiceNo r)) df)
       \<and> ((\<forall>r\<in>set df. \<forall>r'\<in>set df. InvoiceNo r = InvoiceNo r'
              \<longrightarrow> InvoiceNo r = None \<or> txn.CustomerID r = txn.CustomerID r')
            \<longrightarrow> sum_list (map Frequency (Aggregator df)) = nunique (map InvoiceNo df))
       \<and> sum_list (map Monetary (Aggregator df)) = sum_list (nums (map TotalPrice df))"
proof -
  have "cleaned r" if "r \<in> set df" for r
    using that unfolding df_def by (rule Cleaner_cleaned)
  then have keyed: "\<forall>r\<in>set df. \<exists>k. txn.CustomerID r = Num k"
    unfolding cleaned_def by blast
  show ?thesis
  proof (intro conjI impI)
    show "sum_list (map Frequency (Aggregator df))
           = nunique (map (\<lambda>r. map_option (Pair (txn.CustomerID r)) (InvoiceNo r)) df)"
      by (rule Frequency_total[OF keyed])
    show "sum_list (map Monetary (Aggregator df)) = sum_list (nums (map TotalPrice df))"
      by (rule Monetary_total[OF keyed])
    show "sum_list (map Frequency (Aggregator df)) = nunique (map InvoiceNo df)"
      if "\<forall>r\<in>set df. \<forall>r'\<in>set df. InvoiceNo r = InvoiceNo r'
              \<longrightarrow> InvoiceNo r = None \<or> txn.CustomerID r = txn.CustomerID r'"
      using that by (rule Frequency_total_unshared[OF keyed])
  qed
qed

text \<open>The amended claim at a table of three records, two customers and three invoices.\<close>

theorem Aggregator_totals_witness:
  "(let df = Cleaner ex_num ex_dt
       [\<lparr>InvoiceNo = Some ''536365'', Quantity = Str ''6'', InvoiceDate = DStr ''2010-12-01 08:26:00'',
         UnitPrice = Num 3, txn.CustomerID = Num 17850, TotalPrice = NaN, Other = []\<rparr>,
        \<lparr>InvoiceNo = Some ''536366'', Quantity = Num 2, InvoiceDate = DStr ''2010-12-01 08:26:00'',
         UnitPrice = Num 3, txn.CustomerID = Num 13047, TotalPrice = NaN, Other = []\<rparr>,
        \<lparr>InvoiceNo = Some ''536367'', Quantity = Num 1, InvoiceDate = DStr ''2010-12-01 08:26:00'',
         UnitPrice = Num 5, txn.CustomerID = Num 17850, TotalPrice = NaN, Other = []\<rparr>]
    in length df = 3
       \<and> sum_list (map Frequency (Aggregator df)) = nunique (map InvoiceNo df)
       \<and> sum_list (map Monetary (Aggregator df)) = sum_list (nums (map TotalPrice df)))"
proof -
  let ?T = "[\<lparr>InvoiceNo = Some ''536365'', Quantity = Str ''6'', InvoiceDate = DStr ''2010-12-01 08:26:00'',
         UnitPrice = Num 3, txn.CustomerID = Num 17850, TotalPrice = NaN, Other = []\<rparr>,
        \<lparr>InvoiceNo = Some ''536366'', Quantity = Num 2, InvoiceDate = DStr ''2010-12-01 08:26:00'',
         UnitPrice = Num 3, txn.CustomerID = Num 13047, TotalPrice = NaN, Other = []\<rparr>,
        \<lparr>InvoiceNo = Some ''536367'', Quantity = Num 1, InvoiceDate = DStr ''2010-12-01 08:26:00'',
         UnitPrice = Num 5, txn.CustomerID = Num 17850, TotalPrice = NaN, Other = []\<rparr>]"
  have e: "Cleaner ex_num ex_dt ?T =
       [\<lparr>InvoiceNo = Some ''536365'', Quantity = Num 6, InvoiceDate = DTime 1291191960000000000,
         UnitPrice = Num 3, txn.CustomerID = Num 17850, TotalPrice = Num 18, Other = []\<rparr>,
        \<lparr>InvoiceNo = Some ''536366'', Quantity = Num 2, InvoiceDate = DTime 1291191960000000000,
         UnitPrice = Num 3, txn.CustomerID = Num 13047, TotalPrice = Num 6, Other = []\<rparr>,
        \<lparr>InvoiceNo = Some ''536367'', Quantity = Num 1, InvoiceDate = DTime 1291191960000000000,
         UnitPrice = Num 5, txn.CustomerID = Num 17850, TotalPrice = Num 5, Other = []\<rparr>]"
    by (simp add: Cleaner_eval)
  have unshared: "\<forall>r\<in>set (Cleaner ex_num ex_dt ?T). \<forall>r'\<in>set (Cleaner ex_num ex_dt ?T).
      InvoiceNo r = InvoiceNo r' \<longrightarrow> InvoiceNo r = None \<or> txn.CustomerID r = txn.CustomerID r'"
    unfolding e by simp
  have len: "length (Cleaner ex_num ex_dt ?T) = 3" unfolding e by simp
  show ?thesis
    unfolding Let_def using Aggregator_totals[of ex_num ex_dt ?T] unshared len by blast
qed

text \<open>
  The claim as stated fails. One invoice identifier under two customer identifiers counts
  once among the distinct invoice identifiers and once in the Frequency of each customer.
\<close>

theorem Frequency_sum_counts_shared_invoice_twice:
  "sum_list (map Frequency (Aggregator (Cleaner ex_num ex_dt
       [\<lparr>InvoiceNo = Some ''536365'', Quantity = Num 6, InvoiceDate = DStr ''2010-12-01 08:26:00'',
         UnitPrice = Num 3, txn.CustomerID = Num 17850, TotalPrice = NaN, Other = []\<rparr>,
        \<lparr>InvoiceNo = Some ''536365'', Quantity = Num 2, InvoiceDate = DStr ''2010-12-01 08:26:00'',
         UnitPrice = Num 3, txn.CustomerID = Num 13047, TotalPrice = NaN, Other = []\<rparr>]))) = 2
   \<and> nunique (map InvoiceNo (Cleaner ex_num ex_dt
       [\<lparr>InvoiceNo = Some ''536365'', Quantity = Num 6, InvoiceDate = DStr ''2010-12-01 08:26:00'',
         UnitPrice = Num 3, txn.CustomerID = Num 17850, TotalPrice = NaN, Other = []\<rparr>,
        \<lparr>InvoiceNo = Some ''536365'', Quantity = Num 2, InvoiceDate = DStr ''2010-12-01 08:26:00'',
         UnitPrice = Num 3, txn.CustomerID = Num 13047, TotalPrice = NaN, Other = []\<rparr>])) = 1"
proof -
  have e: "Cleaner ex_num ex_dt
       [\<lparr>InvoiceNo = Some ''536365'', Quantity = Num 6, InvoiceDate = DStr ''2010-12-01 08:26:00'',
         UnitPrice = Num 3, txn.CustomerID = Num 17850, TotalPrice = NaN, Other = []\<rparr>,
        \<lparr>InvoiceNo = Some ''536365'', Quantity = Num 2, InvoiceDate = DStr ''2010-12-01 08:26:00'',
         UnitPrice = Num 3, txn.CustomerID = Num 13047, TotalPrice = NaN, Other = []\<rparr>] =
       [\<lparr>InvoiceNo = Some ''536365'', Quantity = Num 6, InvoiceDate = DTime 1291191960000000000,
         UnitPrice = Num 3, txn.CustomerID = Num 17850, TotalPrice = Num 18, Other = []\<rparr>,
        \<lparr>InvoiceNo = Some ''536365'', Quantity = Num 2, InvoiceDate = DTime 1291191960000000000,
         UnitPrice = Num 3, txn.CustomerID = Num 13047, TotalPrice = Num 6, Other = []\<rparr>]"
    by (simp add: Cleaner_eval)
  show ?thesis
    unfolding e by (simp add: Aggregator_def Let_def group_keys_def nunique_def)
qed

section \<open>The Scorer\<close>

subsection \<open>Ranks by first occurrence are a permutation of 1..n\<close>

lemma length_ranks [simp]: "length (ranks vs) = length vs"
  by (simp add: ranks_def)

lemma ranks_nth: "i < length vs \<Longrightarrow> ranks vs ! i = card (below vs i)"
  by (simp add: ranks_def)

lemma rank_first_Some: "rank_first (map Some vs) = map Some (ranks vs)"
proof -
  have "length (filter (\<lambda>j. case map Some vs ! j of None \<Rightarrow> False
                          | Some w \<Rightarrow> w < vs ! i \<or> (w = vs ! i \<and> j \<le> i)) [0..<length vs])
        = card (below vs i)" for i
  proof -
    have "filter (\<lambda>j. case map Some vs ! j of None \<Rightarrow> False
                          | Some w \<Rightarrow> w < vs ! i \<or> (w = vs ! i \<and> j \<le> i)) [0..<length vs]
        = filter (\<lambda>j. vs ! j < vs ! i \<or> (vs ! j = vs ! i \<and> j \<le> i)) [0..<length vs]"
      by (rule filter_cong) simp_all
    moreover have "{j. vs ! j < vs ! i \<or> (vs ! j = vs ! i \<and> j \<le> i)} \<inter> set [0..<length vs] = below vs i"
      by (auto simp: below_def)
    ultimately show ?thesis
      by (simp only: distinct_length_filter[OF distinct_upt])
  qed
  then show ?thesis
    by (simp add: rank_first_def ranks_def)
qed

lemma below_bounds:
  assumes "i < length vs"
  shows "i \<in> below vs i" "below vs i \<subseteq> {0..<length vs}" "finite (below vs i)"
  using assms by (auto simp: below_def)

lemma rank_bounds:
  assumes "i < length vs"
  shows "1 \<le> ranks vs ! i" "ranks vs ! i \<le> length vs"
proof -
  have "card {i} \<le> card (below vs i)"
    using below_bounds[OF assms] by (intro card_mono) auto
  then show "1 \<le> ranks vs ! i" by (simp add: ranks_nth assms)
  have "card (below vs i) \<le> card {0..<length vs}"
    using below_bounds[OF assms] by (intro card_mono) auto
  then show "ranks vs ! i \<le> length vs" by (simp add: ranks_nth assms)
qed

lemma rank_less:
  assumes "i < length vs" "j < length vs"
    and "vs ! i < vs ! j \<or> (vs ! i = vs ! j \<and> i < j)"
  shows "ranks vs ! i < ranks vs ! j"
proof -
  have "below vs i \<subseteq> below vs j" using assms(3) by (auto simp: below_def)
  moreover have "j \<in> below vs j" "j \<notin> below vs i"
    using assms by (auto simp: below_def)
  ultimately have "below vs i \<subset> below vs j" by blast
  then have "card (below vs i) < card (below vs j)"
    using below_bounds(3)[OF assms(2)] by (intro psubset_card_mono)
  then show ?thesis by (simp add: ranks_nth assms)
qed

lemma distinct_ranks: "distinct (ranks vs)"
proof -
  have "ranks vs ! i \<noteq> ranks vs ! j"
    if i: "i < length vs" and j: "j < length vs" and ne: "i \<noteq> j" for i j
  proof -
    have ij: "i < j \<or> j < i" using ne by auto
    have "(vs ! i < vs ! j \<or> (vs ! i = vs ! j \<and> i < j))
        \<or> (vs ! j < vs ! i \<or> (vs ! j = vs ! i \<and> j < i))"
      using ij by (cases "vs ! i" "vs ! j" rule: linorder_cases) auto
    then show ?thesis
    proof
      assume 1: "vs ! i < vs ! j \<or> (vs ! i = vs ! j \<and> i < j)"
      from rank_less[OF i j 1] show ?thesis by simp
    next
      assume 2: "vs ! j < vs ! i \<or> (vs ! j = vs ! i \<and> j < i)"
      from rank_less[OF j i 2] show ?thesis by simp
    qed
  qed
  then show ?thesis by (simp add: distinct_conv_nth)
qed

lemma set_ranks: "set (ranks vs) = {1..length vs}"
proof (rule card_subset_eq)
  show "finite {1..length vs}" by simp
  show "set (ranks vs) \<subseteq> {1..length vs}"
    using rank_bounds[of _ vs] by (auto simp: set_conv_nth)
  show "card (set (ranks vs)) = card {1..length vs}"
    by (simp add: distinct_card[OF distinct_ranks])
qed

lemma sorted_map_real: "sorted xs \<Longrightarrow> sorted (map real xs)"
  by (induction xs) auto

lemma sort_ranks: "sort (map real (ranks vs)) = map real [1..<Suc (length vs)]"
proof (rule sorted_distinct_set_unique)
  show "sorted (sort (map real (ranks vs)))" by simp
  show "distinct (sort (map real (ranks vs)))"
    by (simp add: distinct_map distinct_ranks inj_on_def)
  show "sorted (map real [1..<Suc (length vs)])"
    by (rule sorted_map_real) (rule sorted_upt)
  show "distinct (map real [1..<Suc (length vs)])"
    by (simp add: distinct_map inj_on_def)
  have "set [1..<Suc (length vs)] = {1..length vs}" by auto
  then show "set (sort (map real (ranks vs))) = set (map real [1..<Suc (length vs)])"
    by (simp only: set_sort set_map set_ranks)
qed

lemma notna_Some [simp]: "notna (map Some xs) = xs"
  by (induction xs) auto

subsection \<open>Quintile edges and buckets of the ranks\<close>

lemma nth_upt_real: "i < n \<Longrightarrow> map real [1..<Suc n] ! i = real i + 1"
  by (simp add: nth_append del: upt_Suc)

lemma quantile_upt:
  assumes n: "1 \<le> n" and p: "0 \<le> p" "p \<le> 1"
  shows "quantile (map real [1..<Suc n]) p = 1 + p * real (n - 1)"
proof -
  define h where "h = p * real (n - 1)"
  define lo where "lo = nat \<lfloor>h\<rfloor>"
  define hi where "hi = nat \<lceil>h\<rceil>"
  have h0: "0 \<le> h" using p by (simp add: h_def)
  have "h \<le> 1 * real (n - 1)" unfolding h_def using p by (intro mult_right_mono) auto
  then have hn: "h \<le> real (n - 1)" by simp
  have fl0: "0 \<le> \<lfloor>h\<rfloor>" using h0 by simp
  have ce: "\<lceil>h\<rceil> \<le> int (n - 1)" using hn by (simp add: ceiling_le_iff)
  have flce: "\<lfloor>h\<rfloor> \<le> \<lceil>h\<rceil>" by (rule floor_le_ceiling)
  have "\<lfloor>h\<rfloor> \<le> int (n - 1)" using ce flce by linarith
  then have "lo \<le> n - 1" by (simp add: lo_def nat_le_iff)
  with n have lo: "lo < n" by linarith
  have hi: "hi < n" using n ce by (simp add: hi_def)
  have rlo: "real lo = of_int \<lfloor>h\<rfloor>" using fl0 by (simp add: lo_def)
  have "0 \<le> \<lceil>h\<rceil>" using fl0 flce by linarith
  then have rhi: "real hi = of_int \<lceil>h\<rceil>" by (simp add: hi_def)
  have q: "quantile (map real [1..<Suc n]) p
      = (real lo + 1) + ((real hi + 1) - (real lo + 1)) * (h - real lo)"
    unfolding quantile_def Let_def
    using nth_upt_real[OF lo] nth_upt_real[OF hi]
    by (simp add: h_def lo_def hi_def del: upt_Suc)
  show ?thesis
  proof (cases "h = of_int \<lfloor>h\<rfloor>")
    case True
    then have "\<lceil>h\<rceil> = \<lfloor>h\<rfloor>" by (metis ceiling_of_int)
    with q rlo rhi True show ?thesis by (simp add: h_def)
  next
    case False
    then have "\<lceil>h\<rceil> = \<lfloor>h\<rfloor> + 1" by (simp add: ceiling_altdef)
    with q rlo rhi show ?thesis by (simp add: h_def)
  qed
qed

lemma bins_upt:
  assumes "1 \<le> n"
  shows "map (quantile (map real [1..<Suc n])) [0, 1/5, 2/5, 3/5, 4/5, 1]
       = map (\<lambda>k. 1 + real k * real (n - 1) / 5) [0, 1, 2, 3, 4, 5]"
proof -
  define s where "s = map real [1..<Suc n]"
  have q: "quantile s p = 1 + p * real (n - 1)" if "0 \<le> p" "p \<le> 1" for p
    unfolding s_def using assms that by (rule quantile_upt)
  have "quantile s 0 = 1 + real 0 * real (n - 1) / 5"
    "quantile s (1/5) = 1 + real 1 * real (n - 1) / 5"
    "quantile s (2/5) = 1 + real 2 * real (n - 1) / 5"
    "quantile s (3/5) = 1 + real 3 * real (n - 1) / 5"
    "quantile s (4/5) = 1 + real 4 * real (n - 1) / 5"
    "quantile s 1 = 1 + real 5 * real (n - 1) / 5"
    by (simp_all add: q)
  then show ?thesis
    unfolding s_def[symmetric] by (simp only: list.map)
qed

lemma edge_less:
  assumes "1 \<le> r"
  shows "(1 + real k * real m / 5 < real r) = (k * m < 5 * (r - 1))"
proof -
  have "(1 + real k * real m / 5 < real r) = (real (k * m) < real (5 * (r - 1)))"
    using assms by (simp add: field_simps of_nat_diff)
  then show ?thesis by (simp only: of_nat_less_iff)
qed

lemma cut_bucket:
  assumes n: "2 \<le> n" and r: "1 \<le> r" "r \<le> n"
  shows "cut (map (\<lambda>k. 1 + real k * real (n - 1) / 5) [0, 1, 2, 3, 4, 5]) labels (Some r)
       = Some (labels ! (bucket n r - 1))"
proof -
  have e: "(1 + real k * real (n - 1) / 5 < real r) = (k * (n - 1) < 5 * (r - 1))" for k
    by (rule edge_less[OF r(1)])
  have h: "(real r = 1 + real 0 * real (n - 1) / 5) = (r = 1)" by simp
  show ?thesis
    unfolding cut_def searchsorted_def Let_def list.map list.sel option.case takeWhile.simps e h
    using n r by (auto simp: bucket_def eval_nat_numeral)
qed

lemma bins_distinct:
  "distinct (map (\<lambda>k. 1 + real k * real (n - 1) / 5) [0, 1, 2, 3, 4, 5]) = (2 \<le> n)"
  by auto

lemma qcut_ranks:
  "qcut (map Some (ranks vs)) labels =
     (if length vs < 2 then Inl BinEdgesNotUnique
      else Inr (map (\<lambda>r. Some (labels ! (bucket (length vs) r - 1))) (ranks vs)))"
proof (cases "length vs = 0")
  case True
  then show ?thesis by (simp add: qcut_def ranks_def)
next
  case False
  then have n: "1 \<le> length vs" by (cases vs) simp_all
  have s: "sort (map real (notna (map Some (ranks vs)))) = map real [1..<Suc (length vs)]"
    by (simp only: notna_Some sort_ranks)
  have ne: "map real [1..<Suc (length vs)] \<noteq> []" using n by simp
  have q: "qcut (map Some (ranks vs)) labels =
     (if \<not> 2 \<le> length vs then Inl BinEdgesNotUnique
      else Inr (map (cut (map (\<lambda>k. 1 + real k * real (length vs - 1) / 5) [0, 1, 2, 3, 4, 5]) labels)
                 (map Some (ranks vs))))"
    unfolding qcut_def Let_def s bins_upt[OF n] bins_distinct using ne by (simp only: if_False)
  show ?thesis
  proof (cases "2 \<le> length vs")
    case True
    have "cut (map (\<lambda>k. 1 + real k * real (length vs - 1) / 5) [0, 1, 2, 3, 4, 5]) labels (Some r)
        = Some (labels ! (bucket (length vs) r - 1))" if "r \<in> set (ranks vs)" for r
      using that True by (intro cut_bucket) (simp_all add: set_ranks)
    then show ?thesis using True by (simp add: q)
  next
    case False
    then show ?thesis by (simp add: q)
  qed
qed

subsection \<open>Sizes of the five buckets\<close>

lemma bucket_range: "1 \<le> bucket n r" "bucket n r \<le> 5"
  by (simp_all add: bucket_def)

lemma bucket_mono: "r \<le> r' \<Longrightarrow> bucket n r \<le> bucket n r'"
  unfolding bucket_def by (simp split: if_splits) linarith



lemma bucket_1:
  "{r \<in> {1..Suc m}. bucket (Suc m) r = 1} = {1..1 + m div 5}"
proof (rule set_eqI)
  fix r show "r \<in> {r \<in> {1..Suc m}. bucket (Suc m) r = 1} \<longleftrightarrow> r \<in> {1..1 + m div 5}"
    unfolding bucket_def by (simp split: if_splits) linarith
qed

lemma bucket_2:
  "{r \<in> {1..Suc m}. bucket (Suc m) r = 2} = {m div 5 + 2..1 + 2 * m div 5}"
proof (rule set_eqI)
  fix r show "r \<in> {r \<in> {1..Suc m}. bucket (Suc m) r = 2} \<longleftrightarrow> r \<in> {m div 5 + 2..1 + 2 * m div 5}"
    unfolding bucket_def by (simp split: if_splits) linarith
qed

lemma bucket_3:
  "{r \<in> {1..Suc m}. bucket (Suc m) r = 3} = {2 * m div 5 + 2..1 + 3 * m div 5}"
proof (rule set_eqI)
  fix r show "r \<in> {r \<in> {1..Suc m}. bucket (Suc m) r = 3} \<longleftrightarrow> r \<in> {2 * m div 5 + 2..1 + 3 * m div 5}"
    unfolding bucket_def by (simp split: if_splits) linarith
qed

lemma bucket_4:
  "{r \<in> {1..Suc m}. bucket (Suc m) r = 4} = {3 * m div 5 + 2..1 + 4 * m div 5}"
proof (rule set_eqI)
  fix r show "r \<in> {r \<in> {1..Suc m}. bucket (Suc m) r = 4} \<longleftrightarrow> r \<in> {3 * m div 5 + 2..1 + 4 * m div 5}"
    unfolding bucket_def by (simp split: if_splits) linarith
qed

lemma bucket_5:
  "{r \<in> {1..Suc m}. bucket (Suc m) r = 5} = {4 * m div 5 + 2..Suc m}"
proof (rule set_eqI)
  fix r show "r \<in> {r \<in> {1..Suc m}. bucket (Suc m) r = 5} \<longleftrightarrow> r \<in> {4 * m div 5 + 2..Suc m}"
    unfolding bucket_def by (simp split: if_splits) linarith
qed

lemma div5_lin: "(5 * a + c) div 5 = a + c div (5::nat)"
  by simp

lemma div5_k:
  fixes q t k :: nat
  shows "k * (5 * q + t) div 5 = k * q + k * t div 5"
proof -
  have "k * (5 * q + t) = 5 * (k * q) + k * t" by (simp add: algebra_simps)
  then show ?thesis by (simp only: div5_lin)
qed

lemma quintile_sizes:
  fixes m :: nat
  defines "S \<equiv> {Suc m div 5, (Suc m + 4) div 5}"
  shows "Suc (m div 5) \<in> S" "2 * m div 5 - m div 5 \<in> S" "3 * m div 5 - 2 * m div 5 \<in> S"
    "4 * m div 5 - 3 * m div 5 \<in> S" "m - 4 * m div 5 \<in> S"
proof -
  define q t where "q = m div 5" and "t = m mod 5"
  have m: "m = 5 * q + t" and t: "t < 5" by (simp_all add: q_def t_def)
  have a: "m div 5 = q" "Suc m div 5 = q + (t + 1) div 5" "(Suc m + 4) div 5 = q + 1"
    using t by (simp_all add: m)
  have b: "k * m div 5 = k * q + k * t div 5" for k unfolding m by (rule div5_k)
  from t consider "t = 0" | "t = 1" | "t = 2" | "t = 3" | "t = 4" by linarith
  then show "Suc (m div 5) \<in> S" "2 * m div 5 - m div 5 \<in> S" "3 * m div 5 - 2 * m div 5 \<in> S"
    "4 * m div 5 - 3 * m div 5 \<in> S"
    unfolding S_def a b by (cases; simp)+
  have e: "m - 4 * m div 5 = q + t - 4 * t div 5" unfolding b by (simp add: m)
  from t consider "t = 0" | "t = 1" | "t = 2" | "t = 3" | "t = 4" by linarith
  then show "m - 4 * m div 5 \<in> S"
    unfolding S_def a e by cases simp_all
qed

lemma bucket_count:
  assumes "2 \<le> n" "1 \<le> b" "b \<le> 5"
  shows "card {r \<in> {1..n}. bucket n r = b} \<in> {n div 5, (n + 4) div 5}"
proof -
  from assms(1) obtain m where n: "n = Suc m" by (cases n) auto
  from assms consider "b = 1" | "b = 2" | "b = 3" | "b = 4" | "b = 5" by linarith
  then show ?thesis
  proof cases
    case 1 show ?thesis unfolding 1 n bucket_1 using quintile_sizes(1)[of m] by simp
  next
    case 2 show ?thesis unfolding 2 n bucket_2 using quintile_sizes(2)[of m] by simp
  next
    case 3 show ?thesis unfolding 3 n bucket_3 using quintile_sizes(3)[of m] by simp
  next
    case 4 show ?thesis unfolding 4 n bucket_4 using quintile_sizes(4)[of m] by simp
  next
    case 5 show ?thesis unfolding 5 n bucket_5 using quintile_sizes(5)[of m] by simp
  qed
qed

subsection \<open>What the Scorer returns\<close>

lemma length_score_col [simp]: "length (score_col labels vs) = length vs"
  by (simp add: score_col_def)

lemma qcut_rank_first:
  "qcut (rank_first (map Some vs)) labels =
     (if length vs < 2 then Inl BinEdgesNotUnique else Inr (map Some (score_col labels vs)))"
  by (simp only: rank_first_Some qcut_ranks score_col_def map_map comp_def)

lemma those_map_Some: "those (map Some xs) = Some xs"
  by (induction xs) auto

lemma those_None: "None \<in> set xs \<Longrightarrow> those xs = None"
  by (induction xs) (auto split: option.splits)

lemma map_Some_notna: "None \<notin> set xs \<Longrightarrow> map Some (notna xs) = xs"
  by (induction xs rule: notna.induct) auto

lemma length_notna: "None \<notin> set xs \<Longrightarrow> length (notna xs) = length xs"
  by (induction xs rule: notna.induct) auto

lemma Scorer_eq:
  assumes "\<forall>c\<in>set rfm. Recency c \<noteq> None"
  shows "Scorer rfm =
    (if length rfm < 2 then Inl (51, BinEdgesNotUnique)
     else Inr (map (scored rfm) [0..<length rfm]))"
proof -
  have nn: "None \<notin> set (map Recency rfm)" using assms by (auto simp: image_iff)
  have R: "map Recency rfm = map Some (notna (map Recency rfm))"
    using map_Some_notna[OF nn] by simp
  have lR: "length (notna (map Recency rfm)) = length rfm"
    using length_notna[OF nn] by simp
  have F: "map (\<lambda>c. Some (Frequency c)) rfm = map Some (map Frequency rfm)"
    and M: "map (\<lambda>c. Some (Monetary c)) rfm = map Some (map Monetary rfm)"
    by simp_all
  have q: "qcut (rank_first (map Recency rfm)) labels =
     (if length rfm < 2 then Inl BinEdgesNotUnique
      else Inr (map Some (score_col labels (notna (map Recency rfm)))))" for labels
    by (subst R) (simp only: qcut_rank_first lR)
  show ?thesis
    unfolding Scorer_def q F M qcut_rank_first
    by (simp add: those_map_Some scored_def Let_def)
qed

lemma rank_first_None: "i < length xs \<Longrightarrow> xs ! i = None \<Longrightarrow> rank_first xs ! i = None"
  by (simp add: rank_first_def)

lemma length_rank_first [simp]: "length (rank_first xs) = length xs"
  by (simp add: rank_first_def)

lemma qcut_Inr_None:
  assumes "qcut x labels = Inr R" "i < length x" "x ! i = None"
  shows "None \<in> set R"
proof -
  from assms(1) obtain bins where "R = map (cut bins labels) x"
    by (auto simp: qcut_def Let_def split: if_splits)
  with assms(2,3) have "R ! i = None" "i < length R" by (simp_all add: cut_def)
  then show ?thesis by (metis nth_mem)
qed

lemma Scorer_Inr_D:
  assumes "Scorer rfm = Inr sc"
  shows "2 \<le> length rfm" "\<forall>c\<in>set rfm. Recency c \<noteq> None"
proof -
  show nn: "\<forall>c\<in>set rfm. Recency c \<noteq> None"
  proof (rule ccontr)
    assume "\<not> (\<forall>c\<in>set rfm. Recency c \<noteq> None)"
    then obtain i where i: "i < length rfm" "Recency (rfm ! i) = None"
      by (auto simp: in_set_conv_nth)
    from assms obtain R where R: "qcut (rank_first (map Recency rfm)) [5, 4, 3, 2, 1] = Inr R"
      by (auto simp: Scorer_def split: sum.splits)
    have "rank_first (map Recency rfm) ! i = None"
      using i by (intro rank_first_None) simp_all
    with R i have "None \<in> set R" by (intro qcut_Inr_None[OF R, of i]) simp_all
    then have "those R = None" by (rule those_None)
    with assms R show False
      by (auto simp: Scorer_def split: sum.splits)
  qed
  show "2 \<le> length rfm"
    using assms Scorer_eq[OF nn] by (cases "length rfm < 2") auto
qed

subsection \<open>Score columns\<close>

lemma labels_up: "[1, 2, 3, 4, 5] ! (bucket n r - 1) = int (bucket n r)"
  by (simp add: bucket_def)

lemma labels_down: "[5, 4, 3, 2, 1] ! (bucket n r - 1) = 6 - int (bucket n r)"
  by (simp add: bucket_def)

lemma score_col_up:
  "i < length vs \<Longrightarrow> score_col [1, 2, 3, 4, 5] vs ! i = int (bucket (length vs) (ranks vs ! i))"
proof -
  assume "i < length vs"
  then have "i < length (ranks vs)" by simp
  then show ?thesis unfolding score_col_def by (simp only: nth_map labels_up)
qed

lemma score_col_down:
  "i < length vs \<Longrightarrow> score_col [5, 4, 3, 2, 1] vs ! i = 6 - int (bucket (length vs) (ranks vs ! i))"
proof -
  assume "i < length vs"
  then have "i < length (ranks vs)" by simp
  then show ?thesis unfolding score_col_def by (simp only: nth_map labels_down)
qed

lemma bucket_count_ranks:
  assumes "2 \<le> length vs" "1 \<le> b" "b \<le> 5"
  shows "length (filter (\<lambda>r. bucket (length vs) r = b) (ranks vs))
       \<in> {length vs div 5, (length vs + 4) div 5}"
proof -
  have "{r. bucket (length vs) r = b} \<inter> set (ranks vs)
      = {r \<in> {1..length vs}. bucket (length vs) r = b}"
    unfolding set_ranks by blast
  then show ?thesis
    using bucket_count[OF assms] by (simp only: distinct_length_filter[OF distinct_ranks])
qed

lemma count_up:
  assumes "2 \<le> length vs" "1 \<le> v" "v \<le> 5"
  shows "length (filter (\<lambda>s. s = v) (score_col [1, 2, 3, 4, 5] vs))
       \<in> {length vs div 5, (length vs + 4) div 5}"
proof -
  have "filter (\<lambda>s. s = v) (score_col [1, 2, 3, 4, 5] vs)
      = map (\<lambda>r. int (bucket (length vs) r)) (filter (\<lambda>r. bucket (length vs) r = nat v) (ranks vs))"
    unfolding score_col_def labels_up filter_map comp_def
    using assms(2) by (intro arg_cong[where f="map _"] filter_cong refl) auto
  then show ?thesis
    using bucket_count_ranks[OF assms(1), of "nat v"] assms(2,3) by simp
qed

lemma count_down:
  assumes "2 \<le> length vs" "1 \<le> v" "v \<le> 5"
  shows "length (filter (\<lambda>s. s = v) (score_col [5, 4, 3, 2, 1] vs))
       \<in> {length vs div 5, (length vs + 4) div 5}"
proof -
  have "filter (\<lambda>s. s = v) (score_col [5, 4, 3, 2, 1] vs)
      = map (\<lambda>r. 6 - int (bucket (length vs) r))
          (filter (\<lambda>r. bucket (length vs) r = nat (6 - v)) (ranks vs))"
    unfolding score_col_def labels_down filter_map comp_def
    using assms(3) by (intro arg_cong[where f="map _"] filter_cong refl) auto
  then show ?thesis
    using bucket_count_ranks[OF assms(1), of "nat (6 - v)"] assms(2,3) by simp
qed

lemma bucket_rank_mono:
  assumes "i < length vs" "j < length vs"
    and "vs ! i < vs ! j \<or> (vs ! i = vs ! j \<and> i < j)"
  shows "bucket (length vs) (ranks vs ! i) \<le> bucket (length vs) (ranks vs ! j)"
  using rank_less[OF assms] by (intro bucket_mono) simp



lemma scored_fields:
  "R_score (scored rfm i) = score_col [5, 4, 3, 2, 1] (notna (map Recency rfm)) ! i"
  "F_score (scored rfm i) = score_col [1, 2, 3, 4, 5] (map Frequency rfm) ! i"
  "M_score (scored rfm i) = score_col [1, 2, 3, 4, 5] (map Monetary rfm) ! i"
  "CustomerID (scored rfm i) = CustomerID (rfm ! i)"
  "Recency (scored rfm i) = Recency (rfm ! i)"
  "Frequency (scored rfm i) = Frequency (rfm ! i)"
  "Monetary (scored rfm i) = Monetary (rfm ! i)"
  by (simp_all add: scored_def Let_def rfm_row.defs scored_row.defs)

subsection \<open>Errors, used buckets and monotonicity\<close>

lemma score_col_range_up: "set (score_col [1, 2, 3, 4, 5] vs) \<subseteq> {1..5}"
  using bucket_range by (auto simp: score_col_def simp del: One_nat_def simp: labels_up)

lemma score_col_range_down: "set (score_col [5, 4, 3, 2, 1] vs) \<subseteq> {1..5}"
  using bucket_range by (auto simp: score_col_def simp del: One_nat_def simp: labels_down)

lemma all_used:
  assumes n: "5 \<le> n" and v: "v \<in> {1..5::int}"
    and c: "length (filter (\<lambda>s. s = v) col) \<in> {n div 5, (n + 4) div 5}"
  shows "v \<in> set col"
proof -
  from n have "1 \<le> n div 5" "1 \<le> (n + 4) div 5" by linarith+
  with c have "filter (\<lambda>s. s = v) col \<noteq> []" by auto
  then show ?thesis by (auto simp: filter_empty_conv)
qed

lemma score_col_all_up:
  assumes "5 \<le> length vs" shows "set (score_col [1, 2, 3, 4, 5] vs) = {1..5}"
proof
  show "set (score_col [1, 2, 3, 4, 5] vs) \<subseteq> {1..5}" by (rule score_col_range_up)
  show "{1..5} \<subseteq> set (score_col [1, 2, 3, 4, 5] vs)"
  proof
    fix v :: int assume v: "v \<in> {1..5}"
    then have "length (filter (\<lambda>s. s = v) (score_col [1, 2, 3, 4, 5] vs))
        \<in> {length vs div 5, (length vs + 4) div 5}"
      using assms by (intro count_up) auto
    from all_used[OF assms v this] show "v \<in> set (score_col [1, 2, 3, 4, 5] vs)" .
  qed
qed

lemma score_col_all_down:
  assumes "5 \<le> length vs" shows "set (score_col [5, 4, 3, 2, 1] vs) = {1..5}"
proof
  show "set (score_col [5, 4, 3, 2, 1] vs) \<subseteq> {1..5}" by (rule score_col_range_down)
  show "{1..5} \<subseteq> set (score_col [5, 4, 3, 2, 1] vs)"
  proof
    fix v :: int assume v: "v \<in> {1..5}"
    then have "length (filter (\<lambda>s. s = v) (score_col [5, 4, 3, 2, 1] vs))
        \<in> {length vs div 5, (length vs + 4) div 5}"
      using assms by (intro count_down) auto
    from all_used[OF assms v this] show "v \<in> set (score_col [5, 4, 3, 2, 1] vs)" .
  qed
qed

lemma scored_columns:
  assumes "\<forall>c\<in>set rfm. Recency c \<noteq> None"
  defines "sc \<equiv> map (scored rfm) [0..<length rfm]"
  shows "map R_score sc = score_col [5, 4, 3, 2, 1] (notna (map Recency rfm))"
    and "map F_score sc = score_col [1, 2, 3, 4, 5] (map Frequency rfm)"
    and "map M_score sc = score_col [1, 2, 3, 4, 5] (map Monetary rfm)"
    and "length (notna (map Recency rfm)) = length rfm"
    and "map Some (notna (map Recency rfm)) = map Recency rfm"
proof -
  have nn: "None \<notin> set (map Recency rfm)" using assms(1) by (auto simp: image_iff)
  show l: "length (notna (map Recency rfm)) = length rfm"
    using length_notna[OF nn] by simp
  show "map Some (notna (map Recency rfm)) = map Recency rfm"
    by (rule map_Some_notna[OF nn])
  show "map R_score sc = score_col [5, 4, 3, 2, 1] (notna (map Recency rfm))"
    unfolding sc_def by (rule nth_equalityI) (simp_all add: l scored_fields)
  show "map F_score sc = score_col [1, 2, 3, 4, 5] (map Frequency rfm)"
    unfolding sc_def by (rule nth_equalityI) (simp_all add: scored_fields)
  show "map M_score sc = score_col [1, 2, 3, 4, 5] (map Monetary rfm)"
    unfolding sc_def by (rule nth_equalityI) (simp_all add: scored_fields)
qed


text \<open>
  C2 (as amended). On a customer table without null Recency, Step 4 aborts (at line 51,
  with the library's ValueError that the bin edges are not unique) exactly when there are
  fewer than 2 customers. With 2, 3 or 4 customers it does not abort and returns fewer
  than 5 distinct values in each score column; with 5 or more customers each score column
  takes all five values. Tied values never make the edges collapse, the ranks by first
  occurrence being distinct.
\<close>

theorem Scorer_aborts_only_below_two:
  assumes "\<forall>c\<in>set rfm. Recency c \<noteq> None"
  shows "(length rfm < 2 \<longrightarrow> Scorer rfm = Inl (51, BinEdgesNotUnique))
    \<and> (2 \<le> length rfm \<longrightarrow>
         (\<exists>sc. Scorer rfm = Inr sc \<and> length sc = length rfm
            \<and> (length rfm < 5 \<longrightarrow> card (R_score ` set sc) < 5 \<and> card (F_score ` set sc) < 5
                   \<and> card (M_score ` set sc) < 5)
            \<and> (5 \<le> length rfm \<longrightarrow> R_score ` set sc = {1..5} \<and> F_score ` set sc = {1..5}
                   \<and> M_score ` set sc = {1..5})))"
proof (intro conjI impI)
  show "Scorer rfm = Inl (51, BinEdgesNotUnique)" if "length rfm < 2"
    using that by (simp add: Scorer_eq[OF assms])
  show "\<exists>sc. Scorer rfm = Inr sc \<and> length sc = length rfm
            \<and> (length rfm < 5 \<longrightarrow> card (R_score ` set sc) < 5 \<and> card (F_score ` set sc) < 5
                   \<and> card (M_score ` set sc) < 5)
            \<and> (5 \<le> length rfm \<longrightarrow> R_score ` set sc = {1..5} \<and> F_score ` set sc = {1..5}
                   \<and> M_score ` set sc = {1..5})" if n: "2 \<le> length rfm"
  proof -
    define sc where "sc = map (scored rfm) [0..<length rfm]"
    have S: "Scorer rfm = Inr sc" using n by (simp add: Scorer_eq[OF assms] sc_def)
    have len: "length sc = length rfm" by (simp add: sc_def)
    note cols = scored_columns[OF assms, folded sc_def]
    have small: "card (f ` set sc) < 5" if "length rfm < 5" for f :: "scored_row \<Rightarrow> int"
    proof -
      have "card (f ` set sc) \<le> card (set sc)" by (intro card_image_le) simp
      also have "\<dots> \<le> length sc" by (rule card_length)
      finally show ?thesis using that len by simp
    qed
    have big: "R_score ` set sc = {1..5} \<and> F_score ` set sc = {1..5} \<and> M_score ` set sc = {1..5}"
      if "5 \<le> length rfm"
    proof -
      have "set (map R_score sc) = {1..5}" "set (map F_score sc) = {1..5}"
        "set (map M_score sc) = {1..5}"
        unfolding cols(1,2,3) using that cols(4)
        by (simp_all add: score_col_all_up score_col_all_down)
      then show ?thesis by simp
    qed
    show ?thesis
    proof (intro exI[of _ sc] conjI impI)
      show "Scorer rfm = Inr sc" by (rule S)
      show "length sc = length rfm" by (rule len)
      show "card (R_score ` set sc) < 5" "card (F_score ` set sc) < 5"
        "card (M_score ` set sc) < 5" if "length rfm < 5"
        using small[OF that] by blast+
      show "R_score ` set sc = {1..5}" "F_score ` set sc = {1..5}" "M_score ` set sc = {1..5}"
        if "5 \<le> length rfm"
        using big[OF that] by blast+
    qed
  qed
qed

text \<open>The amended claim at a table of one customer, where the step aborts.\<close>

theorem Scorer_aborts_only_below_two_witness:
  "Scorer [\<lparr>CustomerID = 17850, Recency = Some 1, Frequency = 2, Monetary = 23\<rparr>]
     = Inl (51, BinEdgesNotUnique)"
proof -
  have "\<forall>c\<in>set [\<lparr>CustomerID = 17850, Recency = Some 1, Frequency = 2, Monetary = 23\<rparr>].
      Recency c \<noteq> None" by simp
  from Scorer_aborts_only_below_two[OF this] show ?thesis by simp
qed

text \<open>
  The claim as stated fails. With two customers Step 4 returns scores without any error,
  and only two of the five score values are used.
\<close>

theorem Scorer_two_customers_no_error:
  "Scorer [\<lparr>CustomerID = 13047, Recency = Some 3, Frequency = 1, Monetary = 6\<rparr>,
           \<lparr>CustomerID = 17850, Recency = Some 1, Frequency = 2, Monetary = 23\<rparr>]
   = Inr [\<lparr>CustomerID = 13047, Recency = Some 3, Frequency = 1, Monetary = 6,
            R_score = 1, F_score = 1, M_score = 1, RFM_Score = 3\<rparr>,
          \<lparr>CustomerID = 17850, Recency = Some 1, Frequency = 2, Monetary = 23,
            R_score = 5, F_score = 5, M_score = 5, RFM_Score = 15\<rparr>]"
  by (simp add: Scorer_def rank_first_def qcut_def quantile_def cut_def searchsorted_def Let_def
      rfm_row.defs scored_row.defs)

text \<open>
  C10. Scoring is monotone in each metric. For two customers A and B of one scored table:
  if A's Frequency is greater than B's then A's F_score is at least B's; the same for
  Monetary and M_score; and if A's Recency is greater than B's then A's R_score is at most
  B's.
\<close>

theorem Scorer_monotone:
  assumes "Scorer rfm = Inr sc" "A \<in> set sc" "B \<in> set sc"
  shows "(Frequency B < Frequency A \<longrightarrow> F_score B \<le> F_score A)
    \<and> (Monetary B < Monetary A \<longrightarrow> M_score B \<le> M_score A)
    \<and> (\<forall>a b. Recency A = Some a \<longrightarrow> Recency B = Some b \<longrightarrow> b < a \<longrightarrow> R_score A \<le> R_score B)"
proof -
  note nn = Scorer_Inr_D(2)[OF assms(1)] and n = Scorer_Inr_D(1)[OF assms(1)]
  have sc: "sc = map (scored rfm) [0..<length rfm]"
    using assms(1) n by (simp add: Scorer_eq[OF nn])
  from assms(2) obtain i where i: "i < length rfm" "A = scored rfm i"
    by (auto simp: sc)
  from assms(3) obtain j where j: "j < length rfm" "B = scored rfm j"
    by (auto simp: sc)
  note cols = scored_columns(4,5)[OF nn]
  define rs where "rs = notna (map Recency rfm)"
  have rs: "Recency (rfm ! k) = Some (rs ! k)" if "k < length rfm" for k
  proof -
    have "map Some rs ! k = map Recency rfm ! k" unfolding rs_def cols(2) ..
    then show ?thesis using that cols(1) by (simp add: rs_def)
  qed
  have F: "F_score B \<le> F_score A" if "Frequency B < Frequency A"
  proof -
    have "map Frequency rfm ! j < map Frequency rfm ! i"
      using that i j by (simp add: scored_fields)
    then have "bucket (length (map Frequency rfm)) (ranks (map Frequency rfm) ! j)
        \<le> bucket (length (map Frequency rfm)) (ranks (map Frequency rfm) ! i)"
      using i j by (intro bucket_rank_mono) simp_all
    then show ?thesis using i j by (simp add: scored_fields score_col_up)
  qed
  have M: "M_score B \<le> M_score A" if "Monetary B < Monetary A"
  proof -
    have "map Monetary rfm ! j < map Monetary rfm ! i"
      using that i j by (simp add: scored_fields)
    then have "bucket (length (map Monetary rfm)) (ranks (map Monetary rfm) ! j)
        \<le> bucket (length (map Monetary rfm)) (ranks (map Monetary rfm) ! i)"
      using i j by (intro bucket_rank_mono) simp_all
    then show ?thesis using i j by (simp add: scored_fields score_col_up)
  qed
  have R: "R_score A \<le> R_score B" if "Recency A = Some a" "Recency B = Some b" "b < a" for a b
  proof -
    have "rs ! j < rs ! i"
      using that i j rs[of i] rs[of j] by (simp add: scored_fields)
    then have "bucket (length rs) (ranks rs ! j) \<le> bucket (length rs) (ranks rs ! i)"
      using i j cols(1) by (intro bucket_rank_mono) (simp_all add: rs_def)
    then show ?thesis
      using i j cols(1) by (simp add: scored_fields score_col_down rs_def)
  qed
  show ?thesis
  proof (intro conjI impI allI)
    show "F_score B \<le> F_score A" if "Frequency B < Frequency A" using that by (rule F)
    show "M_score B \<le> M_score A" if "Monetary B < Monetary A" using that by (rule M)
    show "R_score A \<le> R_score B" if "Recency A = Some a" "Recency B = Some b" "b < a" for a b
      using that by (rule R)
  qed
qed

text \<open>C10 at a table of three customers.\<close>

theorem Scorer_monotone_witness:
  "(let A = \<lparr>CustomerID = 12346, Recency = Some 326, Frequency = 7, Monetary = 4310,
              R_score = 1, F_score = 5, M_score = 5, RFM_Score = 11\<rparr>;
        B = \<lparr>CustomerID = 12347, Recency = Some 2, Frequency = 1, Monetary = 77,
              R_score = 5, F_score = 1, M_score = 1, RFM_Score = 7\<rparr>;
        C = \<lparr>CustomerID = 12348, Recency = Some 75, Frequency = 4, Monetary = 1797,
              R_score = 3, F_score = 3, M_score = 3, RFM_Score = 9\<rparr>
    in Scorer [\<lparr>CustomerID = 12346, Recency = Some 326, Frequency = 7, Monetary = 4310\<rparr>,
               \<lparr>CustomerID = 12347, Recency = Some 2, Frequency = 1, Monetary = 77\<rparr>,
               \<lparr>CustomerID = 12348, Recency = Some 75, Frequency = 4, Monetary = 1797\<rparr>]
         = Inr [A, B, C]
     \<and> Frequency B < Frequency A \<and> F_score B \<le> F_score A
     \<and> Monetary B < Monetary A \<and> M_score B \<le> M_score A
     \<and> R_score A \<le> R_score B)"
proof -
  let ?A = "\<lparr>CustomerID = 12346, Recency = Some 326, Frequency = 7, Monetary = 4310,
              R_score = 1, F_score = 5, M_score = 5, RFM_Score = 11\<rparr>"
  let ?B = "\<lparr>CustomerID = 12347, Recency = Some 2, Frequency = 1, Monetary = 77,
              R_score = 5, F_score = 1, M_score = 1, RFM_Score = 7\<rparr>"
  let ?C = "\<lparr>CustomerID = 12348, Recency = Some 75, Frequency = 4, Monetary = 1797,
              R_score = 3, F_score = 3, M_score = 3, RFM_Score = 9\<rparr>"
  have S: "Scorer [\<lparr>CustomerID = 12346, Recency = Some 326, Frequency = 7, Monetary = 4310\<rparr>,
                   \<lparr>CustomerID = 12347, Recency = Some 2, Frequency = 1, Monetary = 77\<rparr>,
                   \<lparr>CustomerID = 12348, Recency = Some 75, Frequency = 4, Monetary = 1797\<rparr>]
         = Inr [?A, ?B, ?C]"
    by (simp add: Scorer_def rank_first_def qcut_def quantile_def cut_def searchsorted_def Let_def
        rfm_row.defs scored_row.defs)
  have A: "?A \<in> set [?A, ?B, ?C]" and B: "?B \<in> set [?A, ?B, ?C]" by simp_all
  from Scorer_monotone[OF S A B] S show ?thesis
    unfolding Let_def by simp
qed

subsection \<open>Quintile balance\<close>





section \<open>The classifier\<close>

text \<open>
  C9. The segment label depends only on the recency and frequency scores: two score
  triples that agree on them get the same label, whatever their monetary scores.
\<close>

theorem segment_customer_ignores_M:
  "R_score a = R_score b \<Longrightarrow> F_score a = F_score b \<Longrightarrow> segment_customer a = segment_customer b"
  by (simp add: segment_customer_def)

theorem segment_customer_ignores_M_witness:
  "segment_customer \<lparr>CustomerID = 17850, Recency = Some 2, Frequency = 34, Monetary = 5391,
      R_score = 5, F_score = 4, M_score = 1, RFM_Score = 10\<rparr> =
   segment_customer \<lparr>CustomerID = 13047, Recency = Some 2, Frequency = 9, Monetary = 3237,
      R_score = 5, F_score = 4, M_score = 5, RFM_Score = 14\<rparr>"
  by (rule segment_customer_ignores_M) simp_all

text \<open>
  C4. The classifier is a total function of the score triple. On every triple (so on
  every triple of [1,5]^3) it returns one of the five labels, the one the ordered
  first-match rules give: Champions when R \<ge> 4 and F \<ge> 4; otherwise Loyal Customers when
  R \<ge> 3 and F \<ge> 3; otherwise Potential Loyalist when R \<ge> 3 and F \<le> 2; otherwise At Risk
  when R \<le> 2 and F \<ge> 3; otherwise Others. (5,5,1) is a Champion, (2,1,5) is Others,
  (1,4,3) is At Risk.
\<close>

theorem segment_customer_rules:
  fixes r f m :: int and row :: "'a scored_row_scheme"
  defines "s \<equiv> segment_customer (row\<lparr>R_score := r, F_score := f, M_score := m\<rparr>)"
  shows "s \<in> {''Champions'', ''Loyal Customers'', ''Potential Loyalist'', ''At Risk'', ''Others''}
    \<and> (s = ''Champions'' \<longleftrightarrow> r \<ge> 4 \<and> f \<ge> 4)
    \<and> (s = ''Loyal Customers'' \<longleftrightarrow> \<not> (r \<ge> 4 \<and> f \<ge> 4) \<and> r \<ge> 3 \<and> f \<ge> 3)
    \<and> (s = ''Potential Loyalist'' \<longleftrightarrow> r \<ge> 3 \<and> f \<le> 2)
    \<and> (s = ''At Risk'' \<longleftrightarrow> r \<le> 2 \<and> f \<ge> 3)
    \<and> (s = ''Others'' \<longleftrightarrow> r \<le> 2 \<and> f \<le> 2)
    \<and> segment_customer (row\<lparr>R_score := 5, F_score := 5, M_score := 1\<rparr>) = ''Champions''
    \<and> segment_customer (row\<lparr>R_score := 2, F_score := 1, M_score := 5\<rparr>) = ''Others''
    \<and> segment_customer (row\<lparr>R_score := 1, F_score := 4, M_score := 3\<rparr>) = ''At Risk''"
  unfolding s_def segment_customer_def by (simp add: Let_def) linarith

end
